theory Spec2Isabelle
  imports Main "HOL-Library.Word"
begin

section \<open>The geometry core of \<open>ndarray_base\<close>\<close>

text \<open>
  The development embeds \<^verbatim>\<open>include/ndarray/ndarray_base.hpp\<close>. The class template
  \<^verbatim>\<open>ndarray_base<D>\<close> stores a shape and a stride vector and reaches the buffer of the
  derived type through \<^verbatim>\<open>data()\<close>.

  \<^item> \<^verbatim>\<open>size_type\<close> is the unsigned integer type of the container. It is modelled as
    \<open>'a word\<close> for an arbitrary width \<open>'a\<close>: multiplication and addition wrap around
    modulo \<open>2 ^ LENGTH('a)\<close>, as unsigned arithmetic in C++ does.
  \<^item> \<^verbatim>\<open>array_shape<size_type>\<close>, \<^verbatim>\<open>array_strides<size_type>\<close> and the container are
    vectors, modelled as lists. The number of elements of a vector fits \<^verbatim>\<open>size_type\<close>,
    so positions and loop counters that stay below \<^verbatim>\<open>size()\<close> are natural numbers.
  \<^item> Reading or writing a vector outside its range is undefined behaviour in C++.
    Every such access is a branch of the model: the operation then yields \<open>None\<close>.
  \<^item> A vector parameter is a \<^verbatim>\<open>const\<close> reference. Where an operation reads such a
    parameter after it has written a member, the parameter is modelled as a reference
    (\<open>vector_ref\<close>) that may be bound to the array's own shape or strides; elsewhere
    the value at the call is passed.
\<close>

datatype layout = row_major | column_major

record ('s, 'v) ndarray_base =
  m_shape :: "'s list"
  m_strides :: "'s list"
  data_impl :: "'v list"

text \<open>
  What a parameter of type \<^verbatim>\<open>const shape_type&\<close> or \<^verbatim>\<open>const strides_type&\<close> is bound
  to. Both types are vectors of \<^verbatim>\<open>size_type\<close>, and \<^verbatim>\<open>shape()\<close> and \<^verbatim>\<open>strides()\<close>
  return references to the members, so a caller can pass the array's own \<^verbatim>\<open>m_shape\<close> or
  \<^verbatim>\<open>m_strides\<close>; \<open>Other v\<close> is any vector outside the array, holding \<open>v\<close>. Reading the
  reference yields the vector as it is at that moment.
\<close>

datatype 's vector_ref = Own_shape | Own_strides | Other "'s list"

fun read_ref :: "('s, 'v) ndarray_base \<Rightarrow> 's vector_ref \<Rightarrow> 's list" where
  "read_ref a Own_shape = m_shape a"
| "read_ref a Own_strides = m_strides a"
| "read_ref a (Other v) = v"

subsection \<open>Vector primitives\<close>

text \<open>\<^verbatim>\<open>v.resize(n, x)\<close>: keeps the first \<open>n\<close> elements and pads with \<open>x\<close>.\<close>

definition resize_vec :: "'x \<Rightarrow> nat \<Rightarrow> 'x list \<Rightarrow> 'x list" where
  "resize_vec x n v = take n v @ replicate (n - length v) x"

text \<open>\<^verbatim>\<open>v[i]\<close> as a read and \<^verbatim>\<open>v[i] = x\<close> as a write.\<close>

definition vec_get :: "'x list \<Rightarrow> nat \<Rightarrow> 'x option" where
  "vec_get v i = (if i < length v then Some (v ! i) else None)"

definition vec_set :: "'x list \<Rightarrow> nat \<Rightarrow> 'x \<Rightarrow> 'x list option" where
  "vec_set v i x = (if i < length v then Some (v[i := x]) else None)"

text \<open>\<^verbatim>\<open>v.front()\<close> and \<^verbatim>\<open>v.back()\<close>, read and written; undefined on an empty vector.\<close>

definition vec_front :: "'x list \<Rightarrow> 'x option" where
  "vec_front v = (case v of [] \<Rightarrow> None | x # _ \<Rightarrow> Some x)"

definition vec_back :: "'x list \<Rightarrow> 'x option" where
  "vec_back v = (if v = [] then None else Some (v ! (length v - 1)))"

definition vec_set_front :: "'x list \<Rightarrow> 'x \<Rightarrow> 'x list option" where
  "vec_set_front v x = (if v = [] then None else Some (v[0 := x]))"

definition vec_set_back :: "'x list \<Rightarrow> 'x \<Rightarrow> 'x list option" where
  "vec_set_back v x = (if v = [] then None else Some (v[length v - 1 := x]))"

subsection \<open>Helpers declared in other headers\<close>

text \<open>
  Modelled from the spec: \<^verbatim>\<open>data_size\<close> (declared in \<^verbatim>\<open>ndindex.hpp\<close>, which is not part
  of the sources) is the element count of a shape, the product of all its entries; the
  product of no entries is 1. The product is taken in \<^verbatim>\<open>size_type\<close>.
\<close>

definition data_size :: "'a::len word list \<Rightarrow> 'a word" where
  "data_size shape = prod_list shape"

text \<open>
  Modelled from the spec: \<^verbatim>\<open>data_offset\<close> (declared in \<^verbatim>\<open>ndindex.hpp\<close>, which is not
  part of the sources) returns the dot product of the indices with the strides. The spec
  fixes the result only for as many indices as there are strides; the model pairs them
  from the front.
\<close>

definition data_offset :: "'a::len word list \<Rightarrow> 'a word list \<Rightarrow> 'a word" where
  "data_offset strides args = sum_list (map2 (*) args strides)"

text \<open>
  Modelled from the spec: the free function \<^verbatim>\<open>ndarray::broadcast_shape(input, output)\<close>
  (declared in \<^verbatim>\<open>ndbroadcast.hpp\<close>, which is not part of the sources). The shorter
  shape is padded on its leading side with dimensions of size 1; the aligned pairs are
  merged from the outermost to the innermost, and the first incompatible pair ends the
  merge with a failure. The spec promises nothing about \<open>output\<close> after a failure; the
  model leaves it as it was.
\<close>

definition pad_leading :: "nat \<Rightarrow> 'a::len word list \<Rightarrow> 'a word list" where
  "pad_leading n shape = replicate (n - length shape) 1 @ shape"

definition merge_dim :: "'a::len word \<Rightarrow> 'a word \<Rightarrow> 'a word option" where
  "merge_dim a b =
     (if a = b then Some a else if a = 1 then Some b else if b = 1 then Some a else None)"

fun merge_dims :: "'a::len word list \<Rightarrow> 'a word list \<Rightarrow> 'a word list option" where
  "merge_dims [] [] = Some []"
| "merge_dims (a # as) (b # bs) =
     (case merge_dim a b of
        None \<Rightarrow> None
      | Some c \<Rightarrow> (case merge_dims as bs of None \<Rightarrow> None | Some cs \<Rightarrow> Some (c # cs)))"
| "merge_dims _ _ = None"

definition ndarray_broadcast_shape ::
  "'a::len word list \<Rightarrow> 'a word list \<Rightarrow> bool \<times> 'a word list" where
  "ndarray_broadcast_shape input output =
     (let n = max (length input) (length output)
      in case merge_dims (pad_leading n input) (pad_leading n output) of
           None \<Rightarrow> (False, output)
         | Some merged \<Rightarrow> (True, merged))"

subsection \<open>Reshaping\<close>

text \<open>
  The row-major loop
  \<^verbatim>\<open>for(size_type i = m_strides.size() - 1; i != 0; --i) m_strides[i - 1] = m_strides[i] * m_shape[i];\<close>
  with the counter \<open>i = Suc j\<close>. The loop is entered only after \<^verbatim>\<open>m_strides.back()\<close>
  has been written, hence with a non-empty vector and a start value that did not wrap.
\<close>

fun row_major_loop ::
  "nat \<Rightarrow> 'a::len word list \<Rightarrow> 'a word list \<Rightarrow> 'a word list option" where
  "row_major_loop 0 shape strides = Some strides"
| "row_major_loop (Suc j) shape strides =
     (case vec_get strides (Suc j) of
        None \<Rightarrow> None
      | Some a \<Rightarrow>
          (case vec_get shape (Suc j) of
             None \<Rightarrow> None
           | Some b \<Rightarrow>
               (case vec_set strides j (a * b) of
                  None \<Rightarrow> None
                | Some strides' \<Rightarrow> row_major_loop j shape strides')))"

text \<open>
  The column-major loop
  \<^verbatim>\<open>for(size_type i = 1; i < m_strides.size(); ++i) m_strides[i] = m_strides[i - 1] * m_shape[i - 1];\<close>
\<close>

function column_major_loop ::
  "nat \<Rightarrow> 'a::len word list \<Rightarrow> 'a word list \<Rightarrow> 'a word list option" where
  "column_major_loop i shape strides =
     (if i < length strides then
        (case vec_get strides (i - 1) of
           None \<Rightarrow> None
         | Some a \<Rightarrow>
             (case vec_get shape (i - 1) of
                None \<Rightarrow> None
              | Some b \<Rightarrow>
                  (case vec_set strides i (a * b) of
                     None \<Rightarrow> None
                   | Some strides' \<Rightarrow> column_major_loop (i + 1) shape strides')))
      else Some strides)"
  by pat_completeness auto
termination
  by (relation "measure (\<lambda>(i, shape, strides). length strides - i)")
     (auto simp: vec_set_def split: if_splits)

declare column_major_loop.simps [simp del]

text \<open>
  \<^verbatim>\<open>reshape(shape, l)\<close>. The argument \<open>dv\<close> is the value-initialised element that
  \<^verbatim>\<open>data().resize(n)\<close> appends when the buffer grows.
\<close>

definition reshape ::
  "'v \<Rightarrow> ('a::len word, 'v) ndarray_base \<Rightarrow> 'a word list \<Rightarrow> layout
     \<Rightarrow> ('a word, 'v) ndarray_base option" where
  "reshape dv a shape l =
     (let a1 = a\<lparr>m_shape := shape\<rparr>;
          a2 = a1\<lparr>m_strides := resize_vec 0 (length (m_shape a1)) (m_strides a1)\<rparr>
      in case l of
           row_major \<Rightarrow>
             (case vec_set_back (m_strides a2) 1 of
                None \<Rightarrow> None
              | Some s1 \<Rightarrow>
                  (case row_major_loop (length s1 - 1) (m_shape a2) s1 of
                     None \<Rightarrow> None
                   | Some s2 \<Rightarrow>
                       (case (vec_front s2, vec_front (m_shape a2)) of
                          (Some f, Some g) \<Rightarrow>
                            Some (a2\<lparr>m_strides := s2,
                                     data_impl := resize_vec dv (unat (f * g)) (data_impl a2)\<rparr>)
                        | _ \<Rightarrow> None)))
         | column_major \<Rightarrow>
             (case vec_set_front (m_strides a2) 1 of
                None \<Rightarrow> None
              | Some s1 \<Rightarrow>
                  (case column_major_loop 1 (m_shape a2) s1 of
                     None \<Rightarrow> None
                   | Some s2 \<Rightarrow>
                       (case (vec_back s2, vec_back (m_shape a2)) of
                          (Some f, Some g) \<Rightarrow>
                            Some (a2\<lparr>m_strides := s2,
                                     data_impl := resize_vec dv (unat (f * g)) (data_impl a2)\<rparr>)
                        | _ \<Rightarrow> None))))"

text \<open>
  \<^verbatim>\<open>reshape(shape, l)\<close> reads its parameter \<open>shape\<close> once, in its first statement and
  before any member is written, so the definition above takes the value that the
  parameter has at the call.

  \<^verbatim>\<open>reshape(shape, strides)\<close> reads \<open>strides\<close> in \<^verbatim>\<open>m_strides = strides\<close>, after
  \<^verbatim>\<open>m_shape = shape\<close> has been executed: a \<open>strides\<close> bound to the array's own shape
  yields the shape just assigned. No vector is indexed, so the operation always returns.
\<close>

definition reshape_strides ::
  "'v \<Rightarrow> ('a::len word, 'v) ndarray_base \<Rightarrow> 'a word vector_ref \<Rightarrow> 'a word vector_ref
     \<Rightarrow> ('a word, 'v) ndarray_base" where
  "reshape_strides dv a shape strides =
     (let a1 = a\<lparr>m_shape := read_ref a shape\<rparr>;
          a2 = a1\<lparr>m_strides := read_ref a1 strides\<rparr>
      in a2\<lparr>data_impl := resize_vec dv (unat (data_size (m_shape a2))) (data_impl a2)\<rparr>)"

subsection \<open>Constructors\<close>

text \<open>
  The constructors run on the buffer \<open>buf\<close> that the derived type holds at that moment.
  The two layout constructors start from empty shape and stride vectors
  (\<^verbatim>\<open>m_shape(0), m_strides(0)\<close>) and call \<^verbatim>\<open>reshape\<close>; the second one then fills the
  buffer with \<open>value\<close>.
\<close>

definition construct_layout ::
  "'v \<Rightarrow> 'v list \<Rightarrow> 'a::len word list \<Rightarrow> layout \<Rightarrow> ('a word, 'v) ndarray_base option" where
  "construct_layout dv buf shape l =
     reshape dv \<lparr>m_shape = [], m_strides = [], data_impl = buf\<rparr> shape l"

definition construct_layout_value ::
  "'v \<Rightarrow> 'v list \<Rightarrow> 'a::len word list \<Rightarrow> 'v \<Rightarrow> layout \<Rightarrow> ('a word, 'v) ndarray_base option" where
  "construct_layout_value dv buf shape val l =
     (case reshape dv \<lparr>m_shape = [], m_strides = [], data_impl = buf\<rparr> shape l of
        None \<Rightarrow> None
      | Some a \<Rightarrow> Some (a\<lparr>data_impl := map (\<lambda>_. val) (data_impl a)\<rparr>))"

text \<open>
  The two constructors with explicit strides copy both vectors
  (\<^verbatim>\<open>m_shape(shape), m_strides(strides)\<close>) and resize the buffer to
  \<^verbatim>\<open>data_size(m_shape)\<close>, the second one padding with \<open>value\<close>. The members of the
  object under construction do not exist before the call, so the arguments are vectors
  outside it and are passed by their values.
\<close>

definition construct_strides ::
  "'v \<Rightarrow> 'v list \<Rightarrow> 'a::len word list \<Rightarrow> 'a word list \<Rightarrow> ('a word, 'v) ndarray_base" where
  "construct_strides dv buf shape strides =
     (let a = \<lparr>m_shape = shape, m_strides = strides, data_impl = buf\<rparr>
      in a\<lparr>data_impl := resize_vec dv (unat (data_size (m_shape a))) (data_impl a)\<rparr>)"

definition construct_strides_value ::
  "'v list \<Rightarrow> 'a::len word list \<Rightarrow> 'a word list \<Rightarrow> 'v \<Rightarrow> ('a word, 'v) ndarray_base" where
  "construct_strides_value buf shape strides val =
     (let a = \<lparr>m_shape = shape, m_strides = strides, data_impl = buf\<rparr>
      in a\<lparr>data_impl := resize_vec val (unat (data_size (m_shape a))) (data_impl a)\<rparr>)"

subsection \<open>Queries, element access and broadcasting\<close>

definition nb_dim :: "('a::len word, 'v) ndarray_base \<Rightarrow> nat" where
  "nb_dim a = length (m_shape a)"

text \<open>
  \<^verbatim>\<open>operator()(args...)\<close>. The arguments are integers of any type; each one is converted
  by \<^verbatim>\<open>static_cast<size_type>\<close>, which reduces it modulo \<open>2 ^ LENGTH('a)\<close>. The
  reference that is returned is the position of the element in the buffer; indexing the
  buffer outside its range is undefined. The mutable and the const overload have the
  same body; they differ in what the caller may do with the reference.
\<close>

definition static_cast_size :: "int \<Rightarrow> 'a::len word" where
  "static_cast_size i = word_of_int i"

definition call_op :: "('a::len word, 'v) ndarray_base \<Rightarrow> int list \<Rightarrow> nat option" where
  "call_op a args =
     (let index = data_offset (m_strides a) (map static_cast_size args)
      in if unat index < length (data_impl a) then Some (unat index) else None)"

definition call_op_const :: "('a::len word, 'v) ndarray_base \<Rightarrow> int list \<Rightarrow> nat option" where
  "call_op_const a args =
     (let index = data_offset (m_strides a) (map static_cast_size args)
      in if unat index < length (data_impl a) then Some (unat index) else None)"

text \<open>
  The member \<^verbatim>\<open>bool broadcast_shape(shape_type& shape) const\<close> hands its own shape and
  the caller's vector to the free function \<open>bs\<close> of the same name. The member is
  \<^verbatim>\<open>const\<close>: it returns the flag, the caller's vector as the free function left it, and
  the array as it was.
\<close>

definition broadcast_shape ::
  "('s list \<Rightarrow> 's list \<Rightarrow> bool \<times> 's list) \<Rightarrow> ('s, 'v) ndarray_base \<Rightarrow> 's list
     \<Rightarrow> bool \<times> 's list \<times> ('s, 'v) ndarray_base" where
  "broadcast_shape bs a shape = (case bs (m_shape a) shape of (ok, shape') \<Rightarrow> (ok, shape', a))"

subsection \<open>Closed forms of the canonical strides\<close>

text \<open>
  The strides that the two loops are meant to compute, as functions of the shape alone:
  the product of the dimensions after position \<open>k\<close> in row-major order, and of the
  dimensions before position \<open>k\<close> in column-major order.
\<close>

definition row_major_strides :: "'a::len word list \<Rightarrow> 'a word list" where
  "row_major_strides s = map (\<lambda>k. prod_list (drop (Suc k) s)) [0..<length s]"

definition column_major_strides :: "'a::len word list \<Rightarrow> 'a word list" where
  "column_major_strides s = map (\<lambda>k. prod_list (take k s)) [0..<length s]"

section \<open>Properties\<close>

subsection \<open>Basic facts\<close>

lemma vec_set_back_Nil: "vec_set_back [] x = None"
  by (simp add: vec_set_back_def)

lemma resize_vec_0: "resize_vec x 0 v = []"
  by (simp add: resize_vec_def)

lemma length_resize_vec: "length (resize_vec x n v) = n"
  by (simp add: resize_vec_def)

lemma row_major_strides_nth:
  "k < length s \<Longrightarrow> row_major_strides s ! k = prod_list (drop (Suc k) s)"
  by (simp add: row_major_strides_def)

lemma column_major_strides_nth:
  "k < length s \<Longrightarrow> column_major_strides s ! k = prod_list (take k s)"
  by (simp add: column_major_strides_def)

lemma length_row_major_strides: "length (row_major_strides s) = length s"
  by (simp add: row_major_strides_def)

lemma length_column_major_strides: "length (column_major_strides s) = length s"
  by (simp add: column_major_strides_def)

lemma prod_list_zero_member:
  fixes s :: "'a::len word list"
  shows "0 \<in> set s \<Longrightarrow> prod_list s = 0"
  by (induction s) auto

text \<open>A product in \<^verbatim>\<open>size_type\<close> is the product of the numbers reduced modulo \<open>2 ^ LENGTH('a)\<close>.\<close>

lemma unat_prod_list_mod:
  fixes s :: "'a::len word list"
  shows "unat (prod_list s) = prod_list (map unat s) mod 2 ^ LENGTH('a)"
proof (induction s)
  case Nil
  then show ?case by simp
next
  case (Cons d ds)
  have "unat (d * prod_list ds) = (unat d * unat (prod_list ds)) mod 2 ^ LENGTH('a)"
    by (simp add: unat_word_ariths)
  also have "\<dots> = (unat d * (prod_list (map unat ds) mod 2 ^ LENGTH('a))) mod 2 ^ LENGTH('a)"
    by (simp add: Cons.IH)
  also have "\<dots> = (unat d * prod_list (map unat ds)) mod 2 ^ LENGTH('a)"
    by (rule mod_mult_right_eq)
  finally show ?case by simp
qed

subsection \<open>The loops compute the closed forms\<close>

lemma prod_list_drop_step:
  fixes s :: "'a::comm_monoid_mult list"
  assumes "k < length s"
  shows "prod_list (drop k s) = s ! k * prod_list (drop (Suc k) s)"
  using assms by (simp add: Cons_nth_drop_Suc [symmetric])

lemma prod_list_take_step:
  fixes s :: "'a::comm_monoid_mult list"
  assumes "k < length s"
  shows "prod_list (take (Suc k) s) = prod_list (take k s) * s ! k"
  using assms by (simp add: take_Suc_conv_app_nth)

lemma vec_front_nth: "v \<noteq> [] \<Longrightarrow> vec_front v = Some (v ! 0)"
  by (cases v) (simp_all add: vec_front_def)

lemma row_major_loop_result:
  fixes shape :: "'a::len word list"
  assumes "length strides = length shape" and "i < length shape"
    and "\<forall>k. i \<le> k \<and> k < length shape \<longrightarrow> strides ! k = prod_list (drop (Suc k) shape)"
  shows "row_major_loop i shape strides = Some (row_major_strides shape)"
  using assms
proof (induction i arbitrary: strides)
  case 0
  have "strides = row_major_strides shape"
    using 0 by (intro nth_equalityI) (simp_all add: row_major_strides_def)
  then show ?case by simp
next
  case (Suc j)
  let ?x = "strides ! Suc j * shape ! Suc j"
  have step: "?x = prod_list (drop (Suc j) shape)"
    using Suc.prems by (simp add: prod_list_drop_step [of "Suc j"] mult.commute)
  have inv: "\<forall>k. j \<le> k \<and> k < length shape \<longrightarrow>
      (strides[j := ?x]) ! k = prod_list (drop (Suc k) shape)"
  proof (intro allI impI)
    fix k assume k: "j \<le> k \<and> k < length shape"
    show "(strides[j := ?x]) ! k = prod_list (drop (Suc k) shape)"
    proof (cases "k = j")
      case True
      then show ?thesis using Suc.prems step by simp
    next
      case False
      then have "Suc j \<le> k" using k by simp
      then show ?thesis using Suc.prems k False by simp
    qed
  qed
  have "row_major_loop j shape (strides[j := ?x]) = Some (row_major_strides shape)"
    using Suc.prems inv by (intro Suc.IH) simp_all
  then show ?case
    using Suc.prems by (simp add: vec_get_def vec_set_def)
qed

lemma column_major_loop_result:
  fixes shape :: "'a::len word list"
  assumes "length strides = length shape" and "0 < i" and "i \<le> length shape"
    and "\<forall>k<i. strides ! k = prod_list (take k shape)"
  shows "column_major_loop i shape strides = Some (column_major_strides shape)"
  using assms
proof (induction "length shape - i" arbitrary: i strides)
  case 0
  then have "i = length shape" by simp
  then have "strides = column_major_strides shape"
    using 0 by (intro nth_equalityI) (simp_all add: column_major_strides_def)
  then show ?case
    using \<open>i = length shape\<close> 0 by (simp add: column_major_loop.simps)
next
  case (Suc d)
  then have i: "i < length shape" by simp
  let ?x = "strides ! (i - 1) * shape ! (i - 1)"
  have step: "?x = prod_list (take i shape)"
    using Suc.prems i prod_list_take_step [of "i - 1" shape] by simp
  have inv: "\<forall>k<Suc i. (strides[i := ?x]) ! k = prod_list (take k shape)"
    using Suc.prems i step by (auto simp: nth_list_update less_Suc_eq)
  have "column_major_loop (Suc i) shape (strides[i := ?x]) = Some (column_major_strides shape)"
    using Suc.prems Suc.hyps i inv by (intro Suc.hyps(1)) simp_all
  then show ?case
    using Suc.prems i by (subst column_major_loop.simps) (simp add: vec_get_def vec_set_def)
qed

lemma reshape_row_major_eq:
  fixes s :: "'a::len word list"
  assumes "s \<noteq> []"
  shows "reshape dv a s row_major =
     Some \<lparr>m_shape = s, m_strides = row_major_strides s,
           data_impl = resize_vec dv (unat (prod_list s)) (data_impl a)\<rparr>"
proof -
  let ?s0 = "resize_vec 0 (length s) (m_strides a)"
  let ?s1 = "?s0[length ?s0 - 1 := 1]"
  have len0: "length ?s0 = length s" by (simp add: resize_vec_def)
  have sb: "vec_set_back ?s0 1 = Some ?s1"
    using assms len0 by (auto simp: vec_set_back_def)
  have loop: "row_major_loop (length ?s1 - 1) s ?s1 = Some (row_major_strides s)"
  proof (rule row_major_loop_result)
    show "length ?s1 = length s" using len0 by simp
    show "length ?s1 - 1 < length s" using assms len0 by simp
    show "\<forall>k. length ?s1 - 1 \<le> k \<and> k < length s \<longrightarrow> ?s1 ! k = prod_list (drop (Suc k) s)"
    proof (intro allI impI)
      fix k assume "length ?s1 - 1 \<le> k \<and> k < length s"
      then have k: "k = length s - 1" "k < length s" using len0 by auto
      then show "?s1 ! k = prod_list (drop (Suc k) s)" using len0 by simp
    qed
  qed
  obtain d ds where s: "s = d # ds" using assms by (cases s) auto
  have "row_major_strides s \<noteq> []" "row_major_strides s ! 0 = prod_list ds"
    by (simp_all add: s row_major_strides_def del: upt_Suc)
  then have f: "vec_front (row_major_strides s) = Some (prod_list ds)"
    by (simp add: vec_front_nth)
  have g: "vec_front s = Some d" by (simp add: s vec_front_def)
  have p: "prod_list ds * d = prod_list s" by (simp add: s mult.commute)
  show ?thesis
    unfolding reshape_def Let_def using sb loop f g p by simp
qed

lemma reshape_column_major_eq:
  fixes s :: "'a::len word list"
  assumes "s \<noteq> []"
  shows "reshape dv a s column_major =
     Some \<lparr>m_shape = s, m_strides = column_major_strides s,
           data_impl = resize_vec dv (unat (prod_list s)) (data_impl a)\<rparr>"
proof -
  let ?s0 = "resize_vec 0 (length s) (m_strides a)"
  let ?s1 = "?s0[0 := 1]"
  have len0: "length ?s0 = length s" by (simp add: resize_vec_def)
  have sf: "vec_set_front ?s0 1 = Some ?s1"
    using assms len0 by (auto simp: vec_set_front_def)
  have loop: "column_major_loop 1 s ?s1 = Some (column_major_strides s)"
  proof (rule column_major_loop_result)
    show "length ?s1 = length s" using len0 by simp
    show "(0::nat) < 1" by simp
    show "1 \<le> length s" using assms by (cases s) auto
    show "\<forall>k<1. ?s1 ! k = prod_list (take k s)"
      using len0 assms by auto
  qed
  have n: "length s - 1 < length s" using assms by simp
  have f: "vec_back (column_major_strides s) = Some (prod_list (take (length s - 1) s))"
    using assms n by (simp add: column_major_strides_def vec_back_def)
  have g: "vec_back s = Some (s ! (length s - 1))" using assms by (simp add: vec_back_def)
  have p: "prod_list (take (length s - 1) s) * s ! (length s - 1) = prod_list s"
    using prod_list_take_step [OF n] assms by simp
  show ?thesis
    unfolding reshape_def Let_def using sf loop f g p by simp
qed

subsection \<open>Reshaping by layout\<close>

text \<open>
  C1. For a non-empty shape \<open>s\<close> of rank \<open>n\<close>, \<^verbatim>\<open>reshape(s, row_major)\<close> returns; the
  strides then satisfy \<open>strides[n-1] = 1\<close> and \<open>strides[i] = strides[i+1] * s[i+1]\<close>
  for all \<open>i < n-1\<close>, and the buffer has as many elements as the product of the entries
  of \<open>s\<close>, computed in \<^verbatim>\<open>size_type\<close>. A shape with a dimension 0 gives an empty
  buffer.
\<close>

theorem reshape_row_major_strides:
  fixes s :: "'a::len word list"
  assumes "s \<noteq> []"
  shows "\<exists>a'. reshape dv a s row_major = Some a'
     \<and> m_shape a' = s
     \<and> length (m_strides a') = length s
     \<and> m_strides a' ! (length s - 1) = 1
     \<and> (\<forall>i. i + 1 < length s \<longrightarrow> m_strides a' ! i = m_strides a' ! (i + 1) * s ! (i + 1))
     \<and> length (data_impl a') = unat (prod_list s)
     \<and> (0 \<in> set s \<longrightarrow> length (data_impl a') = 0)"
proof -
  let ?a' = "\<lparr>m_shape = s, m_strides = row_major_strides s,
           data_impl = resize_vec dv (unat (prod_list s)) (data_impl a)\<rparr>"
  have n: "length s - 1 < length s" using assms by simp
  have last1: "row_major_strides s ! (length s - 1) = 1"
    using n assms by (simp add: row_major_strides_nth)
  have rec: "row_major_strides s ! i = row_major_strides s ! (i + 1) * s ! (i + 1)"
    if "i + 1 < length s" for i
    using that prod_list_drop_step [of "Suc i" s]
    by (simp add: row_major_strides_nth mult.commute)
  have zero: "0 \<in> set s \<longrightarrow> unat (prod_list s) = 0"
    by (simp add: prod_list_zero_member)
  have "reshape dv a s row_major = Some ?a'"
    using assms by (rule reshape_row_major_eq)
  moreover have "m_strides ?a' ! (length s - 1) = 1" using last1 by simp
  moreover have "\<forall>i. i + 1 < length s \<longrightarrow> m_strides ?a' ! i = m_strides ?a' ! (i + 1) * s ! (i + 1)"
    using rec by simp
  moreover have "length (data_impl ?a') = unat (prod_list s)"
    by (simp add: length_resize_vec)
  moreover have "0 \<in> set s \<longrightarrow> length (data_impl ?a') = 0"
    using zero by (simp add: resize_vec_0)
  ultimately show ?thesis
    by (intro exI [of _ ?a']) (simp add: length_row_major_strides resize_vec_0)
qed

theorem reshape_row_major_strides_witness:
  "\<exists>a'. reshape (0::nat) \<lparr>m_shape = [], m_strides = [], data_impl = []\<rparr> [2, 0, 4 :: 64 word] row_major = Some a'
     \<and> m_shape a' = [2, 0, 4]
     \<and> length (m_strides a') = length [2, 0, 4 :: 64 word]
     \<and> m_strides a' ! (length [2, 0, 4 :: 64 word] - 1) = 1
     \<and> (\<forall>i. i + 1 < length [2, 0, 4 :: 64 word]
            \<longrightarrow> m_strides a' ! i = m_strides a' ! (i + 1) * [2, 0, 4] ! (i + 1))
     \<and> length (data_impl a') = unat (prod_list [2, 0, 4 :: 64 word])
     \<and> (0 \<in> set [2, 0, 4 :: 64 word] \<longrightarrow> length (data_impl a') = 0)"
  by (rule reshape_row_major_strides) simp

text \<open>
  C4. For a non-empty shape \<open>s\<close> of rank \<open>n\<close>, \<^verbatim>\<open>reshape(s, column_major)\<close> returns;
  the strides then satisfy \<open>strides[0] = 1\<close> and \<open>strides[i] = strides[i-1] * s[i-1]\<close>
  for \<open>i\<close> from 1 to \<open>n-1\<close>, and the buffer has \<open>strides[n-1] * s[n-1]\<close> elements,
  which is the product of the entries of \<open>s\<close>, computed in \<^verbatim>\<open>size_type\<close>.
\<close>

theorem reshape_column_major_strides:
  fixes s :: "'a::len word list"
  assumes "s \<noteq> []"
  shows "\<exists>a'. reshape dv a s column_major = Some a'
     \<and> m_shape a' = s
     \<and> length (m_strides a') = length s
     \<and> m_strides a' ! 0 = 1
     \<and> (\<forall>i. 1 \<le> i \<and> i < length s \<longrightarrow> m_strides a' ! i = m_strides a' ! (i - 1) * s ! (i - 1))
     \<and> length (data_impl a') = unat (m_strides a' ! (length s - 1) * s ! (length s - 1))
     \<and> m_strides a' ! (length s - 1) * s ! (length s - 1) = prod_list s"
proof -
  let ?a' = "\<lparr>m_shape = s, m_strides = column_major_strides s,
           data_impl = resize_vec dv (unat (prod_list s)) (data_impl a)\<rparr>"
  have n: "length s - 1 < length s" using assms by simp
  have first1: "column_major_strides s ! 0 = 1"
    using assms by (simp add: column_major_strides_nth)
  have rec: "column_major_strides s ! i = column_major_strides s ! (i - 1) * s ! (i - 1)"
    if "1 \<le> i \<and> i < length s" for i
  proof -
    have i: "i - 1 < length s" "Suc (i - 1) = i" "i < length s" using that by auto
    show ?thesis
      using prod_list_take_step [OF i(1)] i by (simp add: column_major_strides_nth)
  qed
  have total: "column_major_strides s ! (length s - 1) * s ! (length s - 1) = prod_list s"
    using n prod_list_take_step [OF n] assms by (simp add: column_major_strides_nth)
  have "reshape dv a s column_major = Some ?a'"
    using assms by (rule reshape_column_major_eq)
  moreover have "m_strides ?a' ! 0 = 1" using first1 by simp
  moreover have "\<forall>i. 1 \<le> i \<and> i < length s \<longrightarrow> m_strides ?a' ! i = m_strides ?a' ! (i - 1) * s ! (i - 1)"
    using rec by simp
  moreover have "length (data_impl ?a') = unat (m_strides ?a' ! (length s - 1) * s ! (length s - 1))"
    using total by (simp add: length_resize_vec)
  moreover have "m_strides ?a' ! (length s - 1) * s ! (length s - 1) = prod_list s"
    using total by simp
  ultimately show ?thesis
    by (intro exI [of _ ?a']) (simp add: length_column_major_strides)
qed

theorem reshape_column_major_strides_witness:
  "\<exists>a'. reshape (0::nat) \<lparr>m_shape = [], m_strides = [], data_impl = []\<rparr> [2, 3, 4 :: 64 word] column_major = Some a'
     \<and> m_shape a' = [2, 3, 4]
     \<and> length (m_strides a') = length [2, 3, 4 :: 64 word]
     \<and> m_strides a' ! 0 = 1
     \<and> (\<forall>i. 1 \<le> i \<and> i < length [2, 3, 4 :: 64 word]
            \<longrightarrow> m_strides a' ! i = m_strides a' ! (i - 1) * [2, 3, 4] ! (i - 1))
     \<and> length (data_impl a')
          = unat (m_strides a' ! (length [2, 3, 4 :: 64 word] - 1) * [2, 3, 4] ! (length [2, 3, 4 :: 64 word] - 1))
     \<and> m_strides a' ! (length [2, 3, 4 :: 64 word] - 1) * [2, 3, 4] ! (length [2, 3, 4 :: 64 word] - 1)
          = prod_list [2, 3, 4 :: 64 word]"
  by (rule reshape_column_major_strides) simp

text \<open>
  C9. Constructing with a non-empty shape in row-major order, reshaping to the same shape
  in column-major order and back to row-major order restores the stride vector of the
  construction.
\<close>

theorem layout_round_trip:
  fixes s :: "'a::len word list"
  assumes "s \<noteq> []"
  shows "\<exists>a b c. construct_layout dv buf s row_major = Some a
     \<and> reshape dv a s column_major = Some b
     \<and> reshape dv b s row_major = Some c
     \<and> m_strides c = m_strides a"
  using assms
  by (simp add: construct_layout_def reshape_row_major_eq reshape_column_major_eq)

theorem layout_round_trip_witness:
  "\<exists>a b c. construct_layout (0::nat) [] [2, 3, 4 :: 64 word] row_major = Some a
     \<and> reshape 0 a [2, 3, 4] column_major = Some b
     \<and> reshape 0 b [2, 3, 4] row_major = Some c
     \<and> m_strides c = m_strides a"
  using layout_round_trip [of "[2, 3, 4 :: 64 word]" "0::nat" "[]"]
  by simp

subsection \<open>Rank 0\<close>

text \<open>
  C6. The specification asks that reshaping to the empty shape (rank 0) in row-major
  order accesses no vector out of range and sizes the buffer to 1, the empty product.
  The code resizes the stride vector to length 0 and then writes \<^verbatim>\<open>m_strides.back()\<close>,
  an element that does not exist: the operation is undefined.
\<close>

theorem reshape_rank0_row_major_undefined:
  "reshape dv a [] row_major = None"
  by (simp add: reshape_def resize_vec_0 vec_set_back_Nil)

subsection \<open>Explicit strides\<close>




text \<open>
  C7. The specification's invariant, that the strides are as long as the shape after
  every geometry-mutating operation, does not hold for the operations with explicit
  strides: they store the caller's stride vector whatever its length. What holds: after
  \<^verbatim>\<open>reshape(shape, l)\<close>
  and after the two layout constructors, whenever they return, the stored strides are as
  long as the stored shape; after \<^verbatim>\<open>reshape(shape, strides)\<close> with a strides argument
  that is not a reference to the array's own shape, and after the two constructors with
  explicit strides, the lengths agree exactly when the caller's strides are as long as
  the caller's shape.
\<close>

theorem strides_length_after_mutation:
  fixes s t :: "'a::len word list" and dv :: 'v
  shows "(\<forall>a'. reshape dv a s l = Some a' \<longrightarrow> length (m_strides a') = length (m_shape a'))
     \<and> (\<forall>a'. construct_layout dv buf s l = Some a' \<longrightarrow> length (m_strides a') = length (m_shape a'))
     \<and> (\<forall>a'. construct_layout_value dv buf s val l = Some a'
            \<longrightarrow> length (m_strides a') = length (m_shape a'))
     \<and> (strides \<noteq> Own_shape \<longrightarrow>
           (length (m_strides (reshape_strides dv a shape strides))
              = length (m_shape (reshape_strides dv a shape strides))
            \<longleftrightarrow> length (read_ref a strides) = length (read_ref a shape)))
     \<and> (length (m_strides (construct_strides dv buf s t)) = length (m_shape (construct_strides dv buf s t))
            \<longleftrightarrow> length t = length s)
     \<and> (length (m_strides (construct_strides_value buf s t val))
            = length (m_shape (construct_strides_value buf s t val))
            \<longleftrightarrow> length t = length s)"
proof -
  have layout: "length (m_strides a') = length (m_shape a')"
    if "reshape dv b s l = Some a'" for a' and b :: "('a word, 'v) ndarray_base"
  proof (cases "s = []")
    case True
    then have "reshape dv b s l = None"
      by (cases l) (simp_all add: reshape_def resize_vec_0 vec_set_back_Nil vec_set_front_def)
    with that show ?thesis by simp
  next
    case False
    then show ?thesis
      using that reshape_row_major_eq [OF False, of dv b] reshape_column_major_eq [OF False, of dv b]
      by (cases l) (auto simp: length_row_major_strides length_column_major_strides)
  qed
  have 1: "\<forall>a'. reshape dv a s l = Some a' \<longrightarrow> length (m_strides a') = length (m_shape a')"
    using layout by blast
  have 2: "\<forall>a'. construct_layout dv buf s l = Some a' \<longrightarrow> length (m_strides a') = length (m_shape a')"
    using layout unfolding construct_layout_def by blast
  have 3: "\<forall>a'. construct_layout_value dv buf s val l = Some a'
            \<longrightarrow> length (m_strides a') = length (m_shape a')"
    using layout unfolding construct_layout_value_def by (auto split: option.splits)
  have 4: "strides \<noteq> Own_shape \<longrightarrow>
           (length (m_strides (reshape_strides dv a shape strides))
              = length (m_shape (reshape_strides dv a shape strides))
            \<longleftrightarrow> length (read_ref a strides) = length (read_ref a shape))"
    by (cases strides) (simp_all add: reshape_strides_def Let_def)
  have 5: "length (m_strides (construct_strides dv buf s t)) = length (m_shape (construct_strides dv buf s t))
            \<longleftrightarrow> length t = length s"
    by (simp add: construct_strides_def)
  have 6: "length (m_strides (construct_strides_value buf s t val))
            = length (m_shape (construct_strides_value buf s t val))
            \<longleftrightarrow> length t = length s"
    by (simp add: construct_strides_value_def)
  from 1 2 3 4 5 6 show ?thesis by blast
qed

theorem strides_length_after_mutation_witness:
  "(\<exists>a'. reshape (0::nat) \<lparr>m_shape = [7], m_strides = [1], data_impl = [5]\<rparr> [2, 3 :: 64 word]
            column_major = Some a'
        \<and> length (m_strides a') = length (m_shape a'))
   \<and> length (m_strides (reshape_strides (0::nat) \<lparr>m_shape = [7 :: 64 word], m_strides = [1],
          data_impl = [5]\<rparr> (Other [4, 5]) (Other [5, 1])))
     = length (m_shape (reshape_strides (0::nat) \<lparr>m_shape = [7 :: 64 word], m_strides = [1],
          data_impl = [5]\<rparr> (Other [4, 5]) (Other [5, 1])))"
proof -
  let ?a = "\<lparr>m_shape = [7 :: 64 word], m_strides = [1], data_impl = [5 :: nat]\<rparr>"
  have ex: "\<exists>a'. reshape (0::nat) ?a [2, 3] column_major = Some a'"
    by (simp add: reshape_column_major_eq)
  have ne: "Other [5, 1 :: 64 word] \<noteq> Own_shape" by simp
  have len: "length (read_ref ?a (Other [5, 1])) = length (read_ref ?a (Other [4, 5]))" by simp
  show ?thesis
    using ex ne len
      strides_length_after_mutation [where dv = "0::nat" and a = ?a and s = "[2, 3]"
        and l = column_major and strides = "Other [5, 1]" and shape = "Other [4, 5]"]
    by blast
qed

theorem strides_length_counterexample:
  "length (m_strides (reshape_strides (0::nat) \<lparr>m_shape = [], m_strides = [], data_impl = []\<rparr>
      (Other [2, 3 :: 64 word]) (Other [1])))
   \<noteq> length (m_shape (reshape_strides (0::nat) \<lparr>m_shape = [], m_strides = [], data_impl = []\<rparr>
      (Other [2, 3 :: 64 word]) (Other [1])))"
  by (simp add: reshape_strides_def)

subsection \<open>Element access\<close>

lemma sum_list_map2_nth:
  fixes xs ys :: "'b::comm_semiring_0 list"
  assumes "length xs = length ys"
  shows "sum_list (map2 (*) xs ys) = (\<Sum>k<length xs. xs ! k * ys ! k)"
proof -
  have "sum_list (map2 (*) xs ys) = (\<Sum>k = 0..<length (map2 (*) xs ys). map2 (*) xs ys ! k)"
    by (rule sum_list_sum_nth)
  also have "\<dots> = (\<Sum>k = 0..<length xs. xs ! k * ys ! k)"
    using assms by (intro sum.cong) simp_all
  finally show ?thesis by (simp add: atLeast0LessThan)
qed

text \<open>
  C2. With as many indices as the rank, and strides as long as the shape, both overloads
  of \<^verbatim>\<open>operator()\<close> return the reference to the buffer position
  \<open>\<Sum>k. i\<^sub>k * strides[k]\<close>, the sum taken in \<^verbatim>\<open>size_type\<close> over the converted indices;
  the access is defined when that position lies inside the buffer.
\<close>

theorem element_access_position:
  fixes a :: "('a::len word, 'v) ndarray_base"
  assumes "length (m_strides a) = nb_dim a" and "length args = nb_dim a"
  shows "call_op a args =
      (if unat (\<Sum>k<nb_dim a. static_cast_size (args ! k) * m_strides a ! k) < length (data_impl a)
       then Some (unat (\<Sum>k<nb_dim a. static_cast_size (args ! k) * m_strides a ! k)) else None)
   \<and> call_op_const a args =
      (if unat (\<Sum>k<nb_dim a. static_cast_size (args ! k) * m_strides a ! k) < length (data_impl a)
       then Some (unat (\<Sum>k<nb_dim a. static_cast_size (args ! k) * m_strides a ! k)) else None)"
proof -
  have "data_offset (m_strides a) (map static_cast_size args)
      = (\<Sum>k<nb_dim a. static_cast_size (args ! k) * m_strides a ! k)"
    using assms sum_list_map2_nth [of "map static_cast_size args" "m_strides a"]
    by (simp add: data_offset_def)
  then show ?thesis
    by (simp add: call_op_def call_op_const_def)
qed

theorem element_access_position_witness:
  "call_op \<lparr>m_shape = [2, 3 :: 64 word], m_strides = [3, 1], data_impl = [10, 11, 12, 13, 14, 15 :: nat]\<rparr>
      [1, 2] = Some 5
   \<and> call_op_const \<lparr>m_shape = [2, 3 :: 64 word], m_strides = [3, 1], data_impl = [10, 11, 12, 13, 14, 15 :: nat]\<rparr>
      [1, 2] = Some 5"
proof -
  let ?a = "\<lparr>m_shape = [2, 3 :: 64 word], m_strides = [3, 1],
    data_impl = [10, 11, 12, 13, 14, 15 :: nat]\<rparr>"
  have n: "nb_dim ?a = Suc (Suc 0)" by (simp add: nb_dim_def)
  have p: "(\<Sum>k<nb_dim ?a. static_cast_size ([1, 2] ! k) * m_strides ?a ! k) = (5 :: 64 word)"
    unfolding n by (simp add: static_cast_size_def)
  have h: "length (m_strides ?a) = nb_dim ?a" "length [1, 2 :: int] = nb_dim ?a"
    unfolding n by simp_all
  show ?thesis
    using element_access_position [OF h] unfolding p by simp
qed

subsection \<open>Broadcasting\<close>

lemma merge_dim_None_iff: "merge_dim a b = None \<longleftrightarrow> a \<noteq> b \<and> a \<noteq> 1 \<and> b \<noteq> 1"
  by (simp add: merge_dim_def)

lemma merge_dim_Some:
  "merge_dim a b = Some c \<Longrightarrow> c = (if a = b then a else if a = 1 then b else a)"
  by (auto simp: merge_dim_def split: if_splits)

lemma merge_dims_None_iff:
  assumes "length A = length B"
  shows "merge_dims A B = None \<longleftrightarrow> (\<exists>k<length A. A ! k \<noteq> B ! k \<and> A ! k \<noteq> 1 \<and> B ! k \<noteq> 1)"
  using assms
proof (induction A B rule: list_induct2)
  case Nil
  then show ?case by simp
next
  case (Cons a as b bs)
  show ?case
  proof (cases "merge_dim a b")
    case None
    then show ?thesis using merge_dim_None_iff [of a b] by auto
  next
    case (Some c)
    then have ok: "\<not> (a \<noteq> b \<and> a \<noteq> 1 \<and> b \<noteq> 1)"
      using merge_dim_None_iff [of a b] by simp
    have "merge_dims (a # as) (b # bs) = None \<longleftrightarrow> merge_dims as bs = None"
      using Some by (simp split: option.splits)
    also have "\<dots> \<longleftrightarrow> (\<exists>k<length as. as ! k \<noteq> bs ! k \<and> as ! k \<noteq> 1 \<and> bs ! k \<noteq> 1)"
      by (rule Cons.IH)
    also have "\<dots> \<longleftrightarrow> (\<exists>k<length (a # as).
        (a # as) ! k \<noteq> (b # bs) ! k \<and> (a # as) ! k \<noteq> 1 \<and> (b # bs) ! k \<noteq> 1)"
      using ok by (auto simp: Ex_less_Suc2)
    finally show ?thesis .
  qed
qed

lemma merge_dims_Some:
  assumes "merge_dims A B = Some r"
  shows "length r = length A \<and>
     (\<forall>k<length A. r ! k = (if A ! k = B ! k then A ! k else if A ! k = 1 then B ! k else A ! k))"
  using assms
proof (induction A B arbitrary: r rule: merge_dims.induct)
  case 1
  then show ?case by simp
next
  case (2 a as b bs)
  from "2.prems" obtain c cs where c: "merge_dim a b = Some c"
    and cs: "merge_dims as bs = Some cs" and r: "r = c # cs"
    by (auto split: option.splits)
  have hd: "c = (if a = b then a else if a = 1 then b else a)"
    using c by (rule merge_dim_Some)
  have tl: "length cs = length as \<and>
     (\<forall>k<length as. cs ! k = (if as ! k = bs ! k then as ! k else if as ! k = 1 then bs ! k else as ! k))"
    using "2.IH" [OF c cs] .
  show ?case
    unfolding r using hd tl by (simp add: All_less_Suc2)
qed simp_all

text \<open>
  C3. \<^verbatim>\<open>broadcast_shape\<close> pads the shorter of the array's shape and the candidate on
  the leading side with 1 up to the larger rank. It returns false exactly when some
  aligned pair \<open>(a, b)\<close> has \<open>a \<noteq> b\<close>, \<open>a \<noteq> 1\<close> and \<open>b \<noteq> 1\<close>. On success the
  result has the larger rank and its dimension is \<open>a\<close> if \<open>a = b\<close>, \<open>b\<close> if \<open>a = 1\<close>, and
  \<open>a\<close> otherwise (then \<open>b = 1\<close>). Shapes \<open>[3,1,5]\<close> and \<open>[4,5]\<close> give \<open>[3,4,5]\<close>;
  shapes \<open>[2,3]\<close> and \<open>[2,4]\<close> fail.
\<close>

theorem broadcast_shape_alignment:
  fixes a :: "('a::len word, 'v) ndarray_base" and cand :: "'a word list"
    and b :: "(64 word, 'w) ndarray_base"
  shows "length (pad_leading (max (nb_dim a) (length cand)) (m_shape a)) = max (nb_dim a) (length cand)
   \<and> length (pad_leading (max (nb_dim a) (length cand)) cand) = max (nb_dim a) (length cand)
   \<and> (fst (broadcast_shape ndarray_broadcast_shape a cand) = False
        \<longleftrightarrow> (\<exists>k<max (nb_dim a) (length cand).
               pad_leading (max (nb_dim a) (length cand)) (m_shape a) ! k
                 \<noteq> pad_leading (max (nb_dim a) (length cand)) cand ! k
             \<and> pad_leading (max (nb_dim a) (length cand)) (m_shape a) ! k \<noteq> 1
             \<and> pad_leading (max (nb_dim a) (length cand)) cand ! k \<noteq> 1))
   \<and> (fst (broadcast_shape ndarray_broadcast_shape a cand)
        \<longrightarrow> length (fst (snd (broadcast_shape ndarray_broadcast_shape a cand)))
              = max (nb_dim a) (length cand)
          \<and> (\<forall>k<max (nb_dim a) (length cand).
               fst (snd (broadcast_shape ndarray_broadcast_shape a cand)) ! k =
                 (if pad_leading (max (nb_dim a) (length cand)) (m_shape a) ! k
                      = pad_leading (max (nb_dim a) (length cand)) cand ! k
                  then pad_leading (max (nb_dim a) (length cand)) (m_shape a) ! k
                  else if pad_leading (max (nb_dim a) (length cand)) (m_shape a) ! k = 1
                  then pad_leading (max (nb_dim a) (length cand)) cand ! k
                  else pad_leading (max (nb_dim a) (length cand)) (m_shape a) ! k)))
   \<and> broadcast_shape ndarray_broadcast_shape (b\<lparr>m_shape := [3, 1, 5]\<rparr>) [4, 5]
        = (True, [3, 4, 5], b\<lparr>m_shape := [3, 1, 5]\<rparr>)
   \<and> fst (broadcast_shape ndarray_broadcast_shape (b\<lparr>m_shape := [2, 3]\<rparr>) [2, 4]) = False"
proof -
  define n where "n = max (nb_dim a) (length cand)"
  define A where "A = pad_leading n (m_shape a)"
  define B where "B = pad_leading n cand"
  have len: "length A = n" "length B = n"
    by (simp_all add: A_def B_def n_def nb_dim_def pad_leading_def)
  have res: "broadcast_shape ndarray_broadcast_shape a cand =
      (case merge_dims A B of None \<Rightarrow> (False, cand, a) | Some r \<Rightarrow> (True, r, a))"
    by (simp add: broadcast_shape_def ndarray_broadcast_shape_def A_def B_def n_def nb_dim_def
        split: option.splits)
  have fail: "fst (broadcast_shape ndarray_broadcast_shape a cand) = False
      \<longleftrightarrow> (\<exists>k<n. A ! k \<noteq> B ! k \<and> A ! k \<noteq> 1 \<and> B ! k \<noteq> 1)"
  proof -
    have "fst (broadcast_shape ndarray_broadcast_shape a cand) = False \<longleftrightarrow> merge_dims A B = None"
      unfolding res by (simp split: option.splits)
    then show ?thesis
      using merge_dims_None_iff [of A B] len by simp
  qed
  have succ: "fst (broadcast_shape ndarray_broadcast_shape a cand)
      \<longrightarrow> length (fst (snd (broadcast_shape ndarray_broadcast_shape a cand))) = n
        \<and> (\<forall>k<n. fst (snd (broadcast_shape ndarray_broadcast_shape a cand)) ! k =
              (if A ! k = B ! k then A ! k else if A ! k = 1 then B ! k else A ! k))"
  proof (cases "merge_dims A B")
    case None
    then show ?thesis unfolding res by simp
  next
    case (Some r)
    then show ?thesis
      unfolding res using merge_dims_Some [OF Some] len by simp
  qed
  have ex1: "broadcast_shape ndarray_broadcast_shape (b\<lparr>m_shape := [3, 1, 5]\<rparr>) [4, 5]
        = (True, [3, 4, 5], b\<lparr>m_shape := [3, 1, 5]\<rparr>)"
    by (simp add: broadcast_shape_def ndarray_broadcast_shape_def pad_leading_def merge_dim_def)
  have ex2: "fst (broadcast_shape ndarray_broadcast_shape (b\<lparr>m_shape := [2, 3]\<rparr>) [2, 4]) = False"
    by (simp add: broadcast_shape_def ndarray_broadcast_shape_def pad_leading_def merge_dim_def)
  show ?thesis
    using len fail succ ex1 ex2 unfolding A_def B_def n_def by blast
qed

theorem broadcast_shape_alignment_witness:
  "fst (broadcast_shape ndarray_broadcast_shape
          \<lparr>m_shape = [3, 1, 5 :: 64 word], m_strides = [5, 5, 1], data_impl = [0 :: nat]\<rparr> [4, 5])
   \<and> length (fst (snd (broadcast_shape ndarray_broadcast_shape
          \<lparr>m_shape = [3, 1, 5 :: 64 word], m_strides = [5, 5, 1], data_impl = [0 :: nat]\<rparr> [4, 5])))
       = max (nb_dim \<lparr>m_shape = [3, 1, 5 :: 64 word], m_strides = [5, 5, 1], data_impl = [0 :: nat]\<rparr>)
           (length [4, 5 :: 64 word])"
proof -
  let ?a = "\<lparr>m_shape = [3, 1, 5 :: 64 word], m_strides = [5, 5, 1], data_impl = [0 :: nat]\<rparr>"
  have ok: "fst (broadcast_shape ndarray_broadcast_shape ?a [4, 5])"
    by (simp add: broadcast_shape_def ndarray_broadcast_shape_def pad_leading_def merge_dim_def)
  show ?thesis
    using ok broadcast_shape_alignment [of ?a "[4, 5]"] by blast
qed

text \<open>
  C10. For every free function \<open>bs\<close> behind it, the member \<^verbatim>\<open>broadcast_shape\<close> returns
  the array as it was: shape, strides and buffer are unchanged whatever the flag; the
  flag and the merged shape are those that \<open>bs\<close> delivers in the candidate argument.
\<close>

theorem broadcast_shape_frame:
  "snd (snd (broadcast_shape bs a cand)) = a
   \<and> m_shape (snd (snd (broadcast_shape bs a cand))) = m_shape a
   \<and> m_strides (snd (snd (broadcast_shape bs a cand))) = m_strides a
   \<and> data_impl (snd (snd (broadcast_shape bs a cand))) = data_impl a
   \<and> (fst (broadcast_shape bs a cand), fst (snd (broadcast_shape bs a cand))) = bs (m_shape a) cand"
  by (simp add: broadcast_shape_def split: prod.splits)

subsection \<open>Offsets over the canonical strides\<close>

text \<open>
  The offsets over the canonical strides are the positional numbers whose digits are the
  indices and whose bases are the dimensions. The lemmas below read them through
  \<open>unat\<close>; they need the element count of the shape, computed without wrap-around, to
  fit \<^verbatim>\<open>size_type\<close>.
\<close>

lemma row_major_strides_Cons:
  "row_major_strides (d # ds) = prod_list ds # row_major_strides ds"
  by (simp add: row_major_strides_def upt_conv_Cons map_Suc_upt [symmetric] del: upt_Suc)

lemma column_major_strides_Cons:
  "column_major_strides (d # ds) = 1 # map ((*) d) (column_major_strides ds)"
  by (simp add: column_major_strides_def upt_conv_Cons map_Suc_upt [symmetric] del: upt_Suc)

lemma data_offset_Cons: "data_offset (c # cs) (i # is) = i * c + data_offset cs is"
  by (simp add: data_offset_def)

lemma data_offset_scale: "data_offset (map ((*) d) cs) is = d * data_offset cs is"
proof (induction cs arbitrary: "is")
  case Nil
  then show ?case by (simp add: data_offset_def)
next
  case (Cons c cs)
  show ?case
  proof (cases "is")
    case Nil
    then show ?thesis by (simp add: data_offset_def)
  next
    case (Cons i js)
    then show ?thesis
      using Cons.IH [of js] by (simp add: data_offset_Cons algebra_simps)
  qed
qed

lemma factor_below:
  fixes d P M :: nat
  assumes "0 < d" and "d * P < M"
  shows "P < M"
proof -
  have "P \<le> d * P" using assms(1) by (cases d) auto
  then show ?thesis using assms(2) by (rule le_less_trans)
qed

lemma unat_prod_list:
  fixes s :: "'a::len word list"
  assumes "prod_list (map unat s) < 2 ^ LENGTH('a)"
  shows "unat (prod_list s) = prod_list (map unat s)"
  using assms
proof (induction s)
  case Nil
  then show ?case by simp
next
  case (Cons d ds)
  show ?case
  proof (cases "d = 0")
    case True
    then show ?thesis by simp
  next
    case False
    then have "0 < unat d" by (simp add: unat_gt_0)
    moreover have "unat d * prod_list (map unat ds) < 2 ^ LENGTH('a)"
      using Cons.prems by simp
    ultimately have "prod_list (map unat ds) < 2 ^ LENGTH('a)"
      by (rule factor_below)
    then have "unat (prod_list ds) = prod_list (map unat ds)" by (rule Cons.IH)
    then show ?thesis
      using Cons.prems by (simp add: unat_word_ariths)
  qed
qed


lemma mixed_radix_bound:
  fixes i d r P :: nat
  assumes "i < d" and "r < P"
  shows "i * P + r < d * P"
proof -
  have "i * P + r < i * P + P" using assms(2) by simp
  also have "\<dots> = Suc i * P" by simp
  also have "\<dots> \<le> d * P" using assms(1) by (intro mult_le_mono1) simp
  finally show ?thesis .
qed

lemma mixed_radix_unique:
  fixes i j r r' P :: nat
  assumes "r < P" and "r' < P" and "i * P + r = j * P + r'"
  shows "i = j \<and> r = r'"
proof -
  have "(i * P + r) div P = i" "(j * P + r') div P = j"
    "(i * P + r) mod P = r" "(j * P + r') mod P = r'"
    using assms(1,2) by simp_all
  then show ?thesis using assms(3) by metis
qed

text \<open>Row-major order: the leading index is the most significant digit.\<close>

lemma row_major_offset_step:
  fixes d i :: "'a::len word"
  assumes "i < d" and "unat d * prod_list (map unat ds) < 2 ^ LENGTH('a)"
    and "unat (data_offset (row_major_strides ds) is) < prod_list (map unat ds)"
  shows "unat (data_offset (row_major_strides (d # ds)) (i # is))
      = unat i * prod_list (map unat ds) + unat (data_offset (row_major_strides ds) is)"
proof -
  let ?P = "prod_list (map unat ds)"
  let ?r = "unat (data_offset (row_major_strides ds) is)"
  have d: "unat i < unat d" using assms(1) by (simp add: word_less_nat_alt)
  then have "0 < unat d" by simp
  then have "?P < 2 ^ LENGTH('a)"
    using assms(2) by (rule factor_below)
  then have P: "unat (prod_list ds) = ?P" by (rule unat_prod_list)
  have "unat i * ?P + ?r < unat d * ?P"
    using d assms(3) by (rule mixed_radix_bound)
  then have small: "unat i * ?P + ?r < 2 ^ LENGTH('a)"
    using assms(2) by simp
  have "unat i * ?P \<le> unat i * ?P + ?r" by simp
  then have small': "unat i * ?P < 2 ^ LENGTH('a)" using small by (rule le_less_trans)
  have "unat (i * prod_list ds) = unat i * ?P"
    using small' by (simp add: unat_word_ariths P)
  then have "unat (i * prod_list ds + data_offset (row_major_strides ds) is) = unat i * ?P + ?r"
    using small by (simp add: unat_word_ariths)
  then show ?thesis
    by (simp add: row_major_strides_Cons data_offset_Cons)
qed

lemma row_major_offset_bound:
  fixes s :: "'a::len word list"
  assumes "list_all2 (<) idx s" and "prod_list (map unat s) < 2 ^ LENGTH('a)"
  shows "unat (data_offset (row_major_strides s) idx) < prod_list (map unat s)"
  using assms
proof (induction rule: list_all2_induct)
  case Nil
  then show ?case by (simp add: row_major_strides_def data_offset_def)
next
  case (Cons i "is" d ds)
  let ?P = "prod_list (map unat ds)"
  have d: "unat i < unat d" using Cons.hyps(1) by (simp add: word_less_nat_alt)
  have N: "unat d * ?P < 2 ^ LENGTH('a)" using Cons.prems by simp
  have "0 < unat d" using d by simp
  then have "?P < 2 ^ LENGTH('a)"
    using N by (rule factor_below)
  then have r: "unat (data_offset (row_major_strides ds) is) < ?P" by (rule Cons.IH)
  have "unat (data_offset (row_major_strides (d # ds)) (i # is))
      = unat i * ?P + unat (data_offset (row_major_strides ds) is)"
    using Cons.hyps(1) N r by (rule row_major_offset_step)
  then show ?case
    using mixed_radix_bound [OF d r] by simp
qed

lemma row_major_offset_inj:
  fixes s :: "'a::len word list"
  assumes "list_all2 (<) idx s" and "list_all2 (<) jdx s"
    and "prod_list (map unat s) < 2 ^ LENGTH('a)"
    and "unat (data_offset (row_major_strides s) idx) = unat (data_offset (row_major_strides s) jdx)"
  shows "idx = jdx"
  using assms(3,1,2,4)
proof (induction s arbitrary: idx jdx)
  case Nil
  have "idx = []" using Nil.prems(2) by simp
  moreover have "jdx = []" using Nil.prems(3) by simp
  ultimately show ?case by simp
next
  case (Cons d ds)
  from Cons.prems(2) obtain i "is" where idx: "idx = i # is" "i < d" "list_all2 (<) is ds"
    by (auto simp: list_all2_Cons2)
  from Cons.prems(3) obtain j js where jdx: "jdx = j # js" "j < d" "list_all2 (<) js ds"
    by (auto simp: list_all2_Cons2)
  let ?P = "prod_list (map unat ds)"
  have d: "unat i < unat d" using idx(2) by (simp add: word_less_nat_alt)
  have N: "unat d * ?P < 2 ^ LENGTH('a)" using Cons.prems(1) by simp
  have "0 < unat d" using d by simp
  then have P: "?P < 2 ^ LENGTH('a)"
    using N by (rule factor_below)
  have r: "unat (data_offset (row_major_strides ds) is) < ?P"
    using idx(3) P by (rule row_major_offset_bound)
  have r': "unat (data_offset (row_major_strides ds) js) < ?P"
    using jdx(3) P by (rule row_major_offset_bound)
  have e1: "unat (data_offset (row_major_strides (d # ds)) (i # is))
      = unat i * ?P + unat (data_offset (row_major_strides ds) is)"
    by (rule row_major_offset_step [OF idx(2) N r])
  have e2: "unat (data_offset (row_major_strides (d # ds)) (j # js))
      = unat j * ?P + unat (data_offset (row_major_strides ds) js)"
    by (rule row_major_offset_step [OF jdx(2) N r'])
  have "unat i * ?P + unat (data_offset (row_major_strides ds) is)
      = unat j * ?P + unat (data_offset (row_major_strides ds) js)"
    using Cons.prems(4) unfolding idx(1) jdx(1) e1 e2 .
  then have "unat i = unat j \<and> unat (data_offset (row_major_strides ds) is)
      = unat (data_offset (row_major_strides ds) js)"
    by (rule mixed_radix_unique [OF r r'])
  then have "i = j" "is = js"
    using Cons.IH [OF P idx(3) jdx(3)] by (simp_all add: word_unat_eq_iff)
  then show ?case by (simp add: idx(1) jdx(1))
qed

lemma row_major_offset_surj:
  fixes s :: "'a::len word list"
  assumes "prod_list (map unat s) < 2 ^ LENGTH('a)" and "p < prod_list (map unat s)"
  shows "\<exists>idx. list_all2 (<) idx s \<and> unat (data_offset (row_major_strides s) idx) = p"
  using assms
proof (induction s arbitrary: p)
  case Nil
  then show ?case by (simp add: row_major_strides_def data_offset_def)
next
  case (Cons d ds)
  let ?P = "prod_list (map unat ds)"
  have N: "unat d * ?P < 2 ^ LENGTH('a)" using Cons.prems(1) by simp
  have p: "p < unat d * ?P" using Cons.prems(2) by simp
  have pos: "0 < unat d" "0 < ?P"
  proof -
    have "unat d * ?P \<noteq> 0" using p by (cases "unat d * ?P") simp_all
    then show "0 < unat d" "0 < ?P" by simp_all
  qed
  have P: "?P < 2 ^ LENGTH('a)"
    using pos(1) N by (rule factor_below)
  have q: "p div ?P < unat d"
    using p pos(2) by (simp add: less_mult_imp_div_less mult.commute)
  have "p mod ?P < ?P" using pos(2) by simp
  then obtain "is" where "is": "list_all2 (<) is ds"
      "unat (data_offset (row_major_strides ds) is) = p mod ?P"
    using Cons.IH [OF P] by blast
  define i :: "'a word" where "i = of_nat (p div ?P)"
  have "p div ?P < 2 ^ LENGTH('a)" using q unsigned_less [of d] by (simp add: less_trans)
  then have ui: "unat i = p div ?P" by (intro of_nat_inverse) (simp_all add: i_def)
  then have id: "i < d" using q by (simp add: word_less_nat_alt)
  have r: "unat (data_offset (row_major_strides ds) is) < ?P"
    using "is"(2) pos(2) by simp
  have "unat (data_offset (row_major_strides (d # ds)) (i # is)) = p"
    using row_major_offset_step [OF id N r] by (simp add: ui "is"(2))
  moreover have "list_all2 (<) (i # is) (d # ds)" using id "is"(1) by simp
  ultimately show ?case by blast
qed

lemma mixed_radix_bound_low:
  fixes i d r P :: nat
  assumes "i < d" and "r < P"
  shows "i + d * r < d * P"
proof -
  have "i + d * r < d + d * r" using assms(1) by simp
  also have "\<dots> = d * Suc r" by simp
  also have "\<dots> \<le> d * P" using assms(2) by (intro mult_le_mono2) simp
  finally show ?thesis .
qed

lemma mixed_radix_unique_low:
  fixes i j r r' d :: nat
  assumes "i < d" and "j < d" and "i + d * r = j + d * r'"
  shows "i = j \<and> r = r'"
proof -
  have "(i + d * r) mod d = i" "(j + d * r') mod d = j"
    "(i + d * r) div d = r" "(j + d * r') div d = r'"
    using assms(1,2) by simp_all
  then show ?thesis using assms(3) by metis
qed

text \<open>Column-major order: the leading index is the least significant digit.\<close>

lemma column_major_offset_step:
  fixes d i :: "'a::len word"
  assumes "i < d" and "unat d * prod_list (map unat ds) < 2 ^ LENGTH('a)"
    and "unat (data_offset (column_major_strides ds) is) < prod_list (map unat ds)"
  shows "unat (data_offset (column_major_strides (d # ds)) (i # is))
      = unat i + unat d * unat (data_offset (column_major_strides ds) is)"
proof -
  let ?P = "prod_list (map unat ds)"
  let ?r = "unat (data_offset (column_major_strides ds) is)"
  have d: "unat i < unat d" using assms(1) by (simp add: word_less_nat_alt)
  have "unat i + unat d * ?r < unat d * ?P"
    using d assms(3) by (rule mixed_radix_bound_low)
  then have small: "unat i + unat d * ?r < 2 ^ LENGTH('a)"
    using assms(2) by simp
  have "unat d * ?r \<le> unat i + unat d * ?r" by simp
  then have small': "unat d * ?r < 2 ^ LENGTH('a)" using small by (rule le_less_trans)
  have "unat (d * data_offset (column_major_strides ds) is) = unat d * ?r"
    using small' by (simp add: unat_word_ariths)
  then have "unat (i + d * data_offset (column_major_strides ds) is) = unat i + unat d * ?r"
    using small by (simp add: unat_word_ariths)
  then show ?thesis
    by (simp add: column_major_strides_Cons data_offset_Cons data_offset_scale)
qed

lemma column_major_offset_bound:
  fixes s :: "'a::len word list"
  assumes "list_all2 (<) idx s" and "prod_list (map unat s) < 2 ^ LENGTH('a)"
  shows "unat (data_offset (column_major_strides s) idx) < prod_list (map unat s)"
  using assms
proof (induction rule: list_all2_induct)
  case Nil
  then show ?case by (simp add: column_major_strides_def data_offset_def)
next
  case (Cons i "is" d ds)
  let ?P = "prod_list (map unat ds)"
  have d: "unat i < unat d" using Cons.hyps(1) by (simp add: word_less_nat_alt)
  have N: "unat d * ?P < 2 ^ LENGTH('a)" using Cons.prems by simp
  have "0 < unat d" using d by simp
  then have "?P < 2 ^ LENGTH('a)"
    using N by (rule factor_below)
  then have r: "unat (data_offset (column_major_strides ds) is) < ?P" by (rule Cons.IH)
  have "unat (data_offset (column_major_strides (d # ds)) (i # is))
      = unat i + unat d * unat (data_offset (column_major_strides ds) is)"
    using Cons.hyps(1) N r by (rule column_major_offset_step)
  then show ?case
    using mixed_radix_bound_low [OF d r] by simp
qed

lemma column_major_offset_inj:
  fixes s :: "'a::len word list"
  assumes "list_all2 (<) idx s" and "list_all2 (<) jdx s"
    and "prod_list (map unat s) < 2 ^ LENGTH('a)"
    and "unat (data_offset (column_major_strides s) idx)
       = unat (data_offset (column_major_strides s) jdx)"
  shows "idx = jdx"
  using assms(3,1,2,4)
proof (induction s arbitrary: idx jdx)
  case Nil
  have "idx = []" using Nil.prems(2) by simp
  moreover have "jdx = []" using Nil.prems(3) by simp
  ultimately show ?case by simp
next
  case (Cons d ds)
  from Cons.prems(2) obtain i "is" where idx: "idx = i # is" "i < d" "list_all2 (<) is ds"
    by (auto simp: list_all2_Cons2)
  from Cons.prems(3) obtain j js where jdx: "jdx = j # js" "j < d" "list_all2 (<) js ds"
    by (auto simp: list_all2_Cons2)
  let ?P = "prod_list (map unat ds)"
  have d: "unat i < unat d" using idx(2) by (simp add: word_less_nat_alt)
  have d': "unat j < unat d" using jdx(2) by (simp add: word_less_nat_alt)
  have N: "unat d * ?P < 2 ^ LENGTH('a)" using Cons.prems(1) by simp
  have "0 < unat d" using d by simp
  then have P: "?P < 2 ^ LENGTH('a)"
    using N by (rule factor_below)
  have r: "unat (data_offset (column_major_strides ds) is) < ?P"
    using idx(3) P by (rule column_major_offset_bound)
  have r': "unat (data_offset (column_major_strides ds) js) < ?P"
    using jdx(3) P by (rule column_major_offset_bound)
  have e1: "unat (data_offset (column_major_strides (d # ds)) (i # is))
      = unat i + unat d * unat (data_offset (column_major_strides ds) is)"
    by (rule column_major_offset_step [OF idx(2) N r])
  have e2: "unat (data_offset (column_major_strides (d # ds)) (j # js))
      = unat j + unat d * unat (data_offset (column_major_strides ds) js)"
    by (rule column_major_offset_step [OF jdx(2) N r'])
  have "unat i + unat d * unat (data_offset (column_major_strides ds) is)
      = unat j + unat d * unat (data_offset (column_major_strides ds) js)"
    using Cons.prems(4) unfolding idx(1) jdx(1) e1 e2 .
  then have "unat i = unat j \<and> unat (data_offset (column_major_strides ds) is)
      = unat (data_offset (column_major_strides ds) js)"
    by (rule mixed_radix_unique_low [OF d d'])
  then have "i = j" "is = js"
    using Cons.IH [OF P idx(3) jdx(3)] by (simp_all add: word_unat_eq_iff)
  then show ?case by (simp add: idx(1) jdx(1))
qed

lemma column_major_offset_surj:
  fixes s :: "'a::len word list"
  assumes "prod_list (map unat s) < 2 ^ LENGTH('a)" and "p < prod_list (map unat s)"
  shows "\<exists>idx. list_all2 (<) idx s \<and> unat (data_offset (column_major_strides s) idx) = p"
  using assms
proof (induction s arbitrary: p)
  case Nil
  then show ?case by (simp add: column_major_strides_def data_offset_def)
next
  case (Cons d ds)
  let ?P = "prod_list (map unat ds)"
  have N: "unat d * ?P < 2 ^ LENGTH('a)" using Cons.prems(1) by simp
  have p: "p < unat d * ?P" using Cons.prems(2) by simp
  have pos: "0 < unat d" "0 < ?P"
  proof -
    have "unat d * ?P \<noteq> 0" using p by (cases "unat d * ?P") simp_all
    then show "0 < unat d" "0 < ?P" by simp_all
  qed
  have P: "?P < 2 ^ LENGTH('a)"
    using pos(1) N by (rule factor_below)
  have q: "p div unat d < ?P"
    using p pos(1) by (simp add: less_mult_imp_div_less mult.commute)
  then obtain "is" where "is": "list_all2 (<) is ds"
      "unat (data_offset (column_major_strides ds) is) = p div unat d"
    using Cons.IH [OF P] by blast
  define i :: "'a word" where "i = of_nat (p mod unat d)"
  have m: "p mod unat d < unat d" using pos(1) by simp
  then have "p mod unat d < 2 ^ LENGTH('a)" using unsigned_less [of d] by (simp add: less_trans)
  then have ui: "unat i = p mod unat d" by (intro of_nat_inverse) (simp_all add: i_def)
  then have id: "i < d" using m by (simp add: word_less_nat_alt)
  have r: "unat (data_offset (column_major_strides ds) is) < ?P"
    using "is"(2) q by simp
  have "unat (data_offset (column_major_strides (d # ds)) (i # is)) = p"
    using column_major_offset_step [OF id N r] by (simp add: ui "is"(2))
  moreover have "list_all2 (<) (i # is) (d # ds)" using id "is"(1) by simp
  ultimately show ?case by blast
qed

subsection \<open>The bijection\<close>

lemma offset_bij_betw:
  fixes s :: "'a::len word list"
  assumes N: "prod_list (map unat s) < 2 ^ LENGTH('a)"
    and bound: "\<And>idx. list_all2 (<) idx s \<Longrightarrow> unat (data_offset str idx) < prod_list (map unat s)"
    and inj: "\<And>idx jdx. list_all2 (<) idx s \<Longrightarrow> list_all2 (<) jdx s \<Longrightarrow>
        unat (data_offset str idx) = unat (data_offset str jdx) \<Longrightarrow> idx = jdx"
    and surj: "\<And>p. p < prod_list (map unat s) \<Longrightarrow>
        \<exists>idx. list_all2 (<) idx s \<and> unat (data_offset str idx) = p"
  shows "bij_betw (\<lambda>idx. unat (data_offset str idx))
     {idx. length idx = length s \<and> (\<forall>k<length s. idx ! k < s ! k)}
     {0..<prod_list (map unat s)}"
proof -
  have valid: "{idx. length idx = length s \<and> (\<forall>k<length s. idx ! k < s ! k)}
      = {idx. list_all2 (<) idx s}"
    by (auto simp: list_all2_conv_all_nth)
  have "inj_on (\<lambda>idx. unat (data_offset str idx)) {idx. list_all2 (<) idx s}"
    using inj by (auto intro: inj_onI)
  moreover have "(\<lambda>idx. unat (data_offset str idx)) ` {idx. list_all2 (<) idx s}
      = {0..<prod_list (map unat s)}"
  proof (intro equalityI subsetI)
    fix p assume "p \<in> (\<lambda>idx. unat (data_offset str idx)) ` {idx. list_all2 (<) idx s}"
    then show "p \<in> {0..<prod_list (map unat s)}" using bound by auto
  next
    fix p assume "p \<in> {0..<prod_list (map unat s)}"
    then have "p < prod_list (map unat s)" by simp
    then obtain idx where "list_all2 (<) idx s" "unat (data_offset str idx) = p"
      using surj by blast
    then show "p \<in> (\<lambda>idx. unat (data_offset str idx)) ` {idx. list_all2 (<) idx s}"
      by auto
  qed
  ultimately show ?thesis
    unfolding valid bij_betw_def by simp
qed

text \<open>
  C5. The specification's collision-free addressing does not hold when the element count
  of the shape does not fit \<^verbatim>\<open>size_type\<close>: the strides wrap around and distinct valid
  index tuples share an offset. What holds: for a non-empty shape with positive entries whose element count
  \<open>\<Prod>k. s[k]\<close>, computed without wrap-around, fits \<^verbatim>\<open>size_type\<close>, and for either layout,
  the reshape returns, the buffer has that many elements, and the offset over the
  computed strides is a bijection from the index tuples with \<open>i\<^sub>k < s[k]\<close> for all \<open>k\<close>
  onto the positions \<open>0, \<dots>, \<Prod>k. s[k] - 1\<close>.
\<close>

theorem canonical_offset_bijection:
  fixes s :: "'a::len word list"
  assumes "s \<noteq> []" and "\<forall>d\<in>set s. 0 < d"
    and "prod_list (map unat s) < 2 ^ LENGTH('a)"
  shows "\<exists>a'. reshape dv a s l = Some a'
     \<and> length (data_impl a') = prod_list (map unat s)
     \<and> bij_betw (\<lambda>idx. unat (data_offset (m_strides a') idx))
          {idx. length idx = length s \<and> (\<forall>k<length s. idx ! k < s ! k)}
          {0..<prod_list (map unat s)}"
proof (cases l)
  case row_major
  have "bij_betw (\<lambda>idx. unat (data_offset (row_major_strides s) idx))
     {idx. length idx = length s \<and> (\<forall>k<length s. idx ! k < s ! k)}
     {0..<prod_list (map unat s)}"
    using assms(3) row_major_offset_bound [OF _ assms(3)] row_major_offset_inj [OF _ _ assms(3)]
      row_major_offset_surj [OF assms(3)]
    by (rule offset_bij_betw)
  then show ?thesis
    using assms(1,3) row_major
    by (simp add: reshape_row_major_eq length_resize_vec unat_prod_list)
next
  case column_major
  have "bij_betw (\<lambda>idx. unat (data_offset (column_major_strides s) idx))
     {idx. length idx = length s \<and> (\<forall>k<length s. idx ! k < s ! k)}
     {0..<prod_list (map unat s)}"
    using assms(3) column_major_offset_bound [OF _ assms(3)]
      column_major_offset_inj [OF _ _ assms(3)] column_major_offset_surj [OF assms(3)]
    by (rule offset_bij_betw)
  then show ?thesis
    using assms(1,3) column_major
    by (simp add: reshape_column_major_eq length_resize_vec unat_prod_list)
qed

theorem canonical_offset_bijection_witness:
  "\<exists>a'. reshape (0::nat) \<lparr>m_shape = [], m_strides = [], data_impl = []\<rparr> [2, 3 :: 64 word] column_major
          = Some a'
     \<and> length (data_impl a') = prod_list (map unat [2, 3 :: 64 word])
     \<and> bij_betw (\<lambda>idx. unat (data_offset (m_strides a') idx))
          {idx. length idx = length [2, 3 :: 64 word] \<and> (\<forall>k<length [2, 3 :: 64 word]. idx ! k < [2, 3] ! k)}
          {0..<prod_list (map unat [2, 3 :: 64 word])}"
  by (rule canonical_offset_bijection) simp_all

text \<open>
  On a 64-bit \<^verbatim>\<open>size_type\<close> the shape \<open>[2, 2^63, 2]\<close> gets the row-major strides
  \<open>[0, 2, 1]\<close> and an empty buffer; the valid index tuples \<open>(0,0,0)\<close> and \<open>(1,0,0)\<close>
  both have offset 0.
\<close>

theorem offset_collision_counterexample:
  "reshape (0::nat) \<lparr>m_shape = [], m_strides = [], data_impl = []\<rparr> [2, 2 ^ 63, 2 :: 64 word] row_major
     = Some \<lparr>m_shape = [2, 2 ^ 63, 2], m_strides = [0, 2, 1], data_impl = []\<rparr>
   \<and> list_all2 (<) [0, 0, 0] [2, 2 ^ 63, 2 :: 64 word]
   \<and> list_all2 (<) [1, 0, 0] [2, 2 ^ 63, 2 :: 64 word]
   \<and> [0, 0, 0] \<noteq> [1, 0, 0 :: 64 word]
   \<and> data_offset [0, 2, 1] [0, 0, 0] = data_offset [0, 2, 1] [1, 0, 0 :: 64 word]"
  by code_simp

end
